theory Spec2Isabelle
  imports Main "HOL-Library.Product_Lexorder"
begin

section \<open>Conway's Game of Life: the board of simpleGOL.py\<close>

text \<open>
  A cell is a pair of Python integers. The live cells are kept in a Python \<open>set\<close>,
  modelled as a HOL set; every set the program builds is finite. Python raises where
  HOL would return an unspecified value (\<open>set.remove\<close> of a missing element,
  \<open>min\<close> and \<open>max\<close> of an empty sequence), so these are results of a sum type.
  The class \<open>Game\<close> and \<open>Board.Draw\<close> (window, clock and drawing with pygame) are
  not part of the model; \<open>Draw\<close> also widens the four bounds for display, so the
  statements about bounds below are about construction and \<open>Generate_next_state\<close>.
\<close>

type_synonym cell = "int \<times> int"

datatype error = KeyError | ValueError

text \<open>
  The attributes of a \<open>Board\<close> object. \<open>live\<close> and \<open>previous\<close> hold sets: in the
  model of the values they are the sets themselves (\<open>board\<close>), in the model of the
  objects they are references to set objects in a store (\<open>board_obj\<close>, below).
\<close>

record 'c board_of =
  live :: 'c
  previous :: 'c
  state :: int
  min_x :: int
  max_x :: int
  min_y :: int
  max_y :: int
  center_x :: int
  center_y :: int

type_synonym board = "cell set board_of"

subsection \<open>Python primitives\<close>

text \<open>\<open>range(-1, 2)\<close> is the list \<open>[-1, 0, 1]\<close>.\<close>

definition range3 :: "int list" where
  "range3 = [-1..1]"

text \<open>\<open>s.remove(x)\<close> raises KeyError when \<open>x\<close> is not a member.\<close>

definition set_remove :: "'a set \<Rightarrow> 'a \<Rightarrow> error + 'a set" where
  "set_remove s x = (if x \<in> s then Inr (s - {x}) else Inl KeyError)"

text \<open>\<open>min\<close> and \<open>max\<close> raise ValueError on an empty argument.\<close>

definition py_min :: "int set \<Rightarrow> error + int" where
  "py_min s = (if s = {} then Inl ValueError else Inr (Min s))"

definition py_max :: "int set \<Rightarrow> error + int" where
  "py_max s = (if s = {} then Inl ValueError else Inr (Max s))"

text \<open>
  A \<open>for\<close> loop over a set visits each member once, in an order Python does not
  fix. The model visits them in increasing order; the loops below are shown not to
  depend on the order (\<open>expansion_loop_any_order\<close>, \<open>live_loop_any_order\<close>).
\<close>

definition iterate :: "cell set \<Rightarrow> cell list" where
  "iterate s = sorted_list_of_set s"

subsection \<open>Board.expand, Board.expansion, Board.transition\<close>

text \<open>
  \<open>return set([(x+a, y+b) for a in range(-1, 2) for b in range(-1, 2)])\<close>
\<close>

definition expand :: "cell \<Rightarrow> cell set" where
  "expand cell = (case cell of (x, y) \<Rightarrow>
     set (concat (map (\<lambda>a. map (\<lambda>b. (x + a, y + b)) range3) range3)))"

text \<open>The loop \<open>for cell in positions: expanded_set.update(self.expand(cell))\<close>.\<close>

fun expansion_loop :: "cell list \<Rightarrow> cell set \<Rightarrow> cell set" where
  "expansion_loop [] expanded_set = expanded_set"
| "expansion_loop (cell # rest) expanded_set =
     expansion_loop rest (expanded_set \<union> expand cell)"

definition expansion :: "cell set \<Rightarrow> cell set" where
  "expansion positions = expansion_loop (iterate positions) {}"

text \<open>
  \<open>neighbours.remove(cell)\<close> may raise; \<open>intersection_update\<close> keeps the members of
  \<open>neighbours\<close> that are in \<open>state\<close>; \<open>len\<close> is the cardinality.
\<close>

definition transition :: "cell \<Rightarrow> cell set \<Rightarrow> error + bool" where
  "transition cell st =
     (case set_remove (expand cell) cell of
        Inl e \<Rightarrow> Inl e
      | Inr neighbours \<Rightarrow>
          (let neighbours = neighbours \<inter> st
           in Inr (card neighbours = 3 \<or> (card neighbours = 2 \<and> cell \<in> st))))"

subsection \<open>Board.update_boundaries\<close>

definition update_boundaries :: "board \<Rightarrow> error + board" where
  "update_boundaries b =
     (if card (live b) = 0 then Inr b
      else
        (case py_min (fst ` live b) of Inl e \<Rightarrow> Inl e | Inr mn_x \<Rightarrow>
        (case py_max (fst ` live b) of Inl e \<Rightarrow> Inl e | Inr mx_x \<Rightarrow>
        (case py_min (snd ` live b) of Inl e \<Rightarrow> Inl e | Inr mn_y \<Rightarrow>
        (case py_max (snd ` live b) of Inl e \<Rightarrow> Inl e | Inr mx_y \<Rightarrow>
          Inr (b\<lparr>min_x := min (min_x b) mn_x,
                 max_x := max (max_x b) mx_x,
                 min_y := min (min_y b) mn_y,
                 max_y := max (max_y b) mx_y\<rparr>))))))"

subsection \<open>Board.__init__\<close>

text \<open>
  The constructor stores the seed as a set, sets the sentinel box, calls
  \<open>update_boundaries\<close> and then sets the centre, which \<open>update_boundaries\<close> neither
  reads nor writes.
\<close>

definition Board :: "cell list \<Rightarrow> error + board" where
  "Board initial_cells =
     (case update_boundaries
             \<lparr>live = set initial_cells, previous = {}, state = 0,
              min_x = 100, max_x = - 100, min_y = 100, max_y = - 100,
              center_x = 0, center_y = 0\<rparr> of
        Inl e \<Rightarrow> Inl e
      | Inr b \<Rightarrow> Inr (b\<lparr>center_x := 0, center_y := 0\<rparr>))"

subsection \<open>Board.Generate_next_state\<close>

text \<open>
  The loop \<open>for cell in candidate: if self.transition(cell, self.previous): self.live.add(cell)\<close>,
  with the new live set as accumulator; an exception of \<open>transition\<close> leaves the loop.
\<close>

fun live_loop :: "cell list \<Rightarrow> cell set \<Rightarrow> cell set \<Rightarrow> error + cell set" where
  "live_loop [] prev lv = Inr lv"
| "live_loop (cell # rest) prev lv =
     (case transition cell prev of
        Inl e \<Rightarrow> Inl e
      | Inr t \<Rightarrow> live_loop rest prev (if t then insert cell lv else lv))"

definition Generate_next_state :: "board \<Rightarrow> error + board" where
  "Generate_next_state b =
     (if card (live b) = 0 then Inr b
      else
        let b1 = b\<lparr>state := state b + 1\<rparr>;
            b2 = b1\<lparr>previous := live b1\<rparr>;
            candidate = expansion (live b2);
            b3 = b2\<lparr>live := {}\<rparr>
        in case live_loop (iterate candidate) (previous b3) (live b3) of
             Inl e \<Rightarrow> Inl e
           | Inr lv \<Rightarrow> update_boundaries (b3\<lparr>live := lv\<rparr>))"

text \<open>
  The first part of \<open>Generate_next_state\<close>, up to \<open>self.live = set()\<close>: nothing on
  the early return, otherwise the board at that point and the local \<open>candidate\<close>.
  \<open>Generate_next_state\<close> runs its loop over this set
  (\<open>Generate_next_state_by_candidate\<close>).
\<close>

definition Generate_next_state_candidate :: "board \<Rightarrow> (board \<times> cell set) option" where
  "Generate_next_state_candidate b =
     (if card (live b) = 0 then None
      else
        let b1 = b\<lparr>state := state b + 1\<rparr>;
            b2 = b1\<lparr>previous := live b1\<rparr>;
            candidate = expansion (live b2);
            b3 = b2\<lparr>live := {}\<rparr>
        in Some (b3, candidate))"

text \<open>
  \<open>Game.Tick\<close> calls \<open>Generate_next_state\<close> again and again on the same board;
  \<open>steps n\<close> is \<open>n\<close> successive calls, stopping at the first exception.
\<close>

fun steps :: "nat \<Rightarrow> board \<Rightarrow> error + board" where
  "steps 0 b = Inr b"
| "steps (Suc n) b =
     (case Generate_next_state b of Inl e \<Rightarrow> Inl e | Inr b' \<Rightarrow> steps n b')"

text \<open>
  A program run: construct the board from a seed, then call \<open>Generate_next_state\<close>
  \<open>n\<close> times.
\<close>

definition run :: "cell list \<Rightarrow> nat \<Rightarrow> error + board" where
  "run initial_cells n =
     (case Board initial_cells of Inl e \<Rightarrow> Inl e | Inr b \<Rightarrow> steps n b)"

subsection \<open>The board as an object: sets in a store\<close>

text \<open>
  Python sets are mutable objects and the attributes \<open>live\<close> and \<open>previous\<close> hold
  references to them. The store maps a reference to the contents of the set object;
  \<open>next_ref\<close> is the next unused reference. \<open>set(...)\<close> and \<open>copy.copy\<close> create a new
  object, \<open>s.add(x)\<close> changes the object \<open>s\<close> in place, and an assignment to an
  attribute stores a reference. The sets local to \<open>expand\<close>, \<open>expansion\<close> and
  \<open>transition\<close> are never stored in the board and stay values.
\<close>

type_synonym ref = nat

record heap =
  set_at :: "ref \<Rightarrow> cell set"
  next_ref :: ref

type_synonym board_obj = "ref board_of"

definition new_set :: "cell set \<Rightarrow> heap \<Rightarrow> ref \<times> heap" where
  "new_set s h =
     (next_ref h, h\<lparr>set_at := (set_at h)(next_ref h := s), next_ref := Suc (next_ref h)\<rparr>)"

definition set_add :: "ref \<Rightarrow> cell \<Rightarrow> heap \<Rightarrow> heap" where
  "set_add r x h = h\<lparr>set_at := (set_at h)(r := insert x (set_at h r))\<rparr>"

definition update_boundaries_obj :: "heap \<Rightarrow> board_obj \<Rightarrow> error + board_obj" where
  "update_boundaries_obj h b =
     (if card (set_at h (live b)) = 0 then Inr b
      else
        (case py_min (fst ` set_at h (live b)) of Inl e \<Rightarrow> Inl e | Inr mn_x \<Rightarrow>
        (case py_max (fst ` set_at h (live b)) of Inl e \<Rightarrow> Inl e | Inr mx_x \<Rightarrow>
        (case py_min (snd ` set_at h (live b)) of Inl e \<Rightarrow> Inl e | Inr mn_y \<Rightarrow>
        (case py_max (snd ` set_at h (live b)) of Inl e \<Rightarrow> Inl e | Inr mx_y \<Rightarrow>
          Inr (b\<lparr>min_x := min (min_x b) mn_x,
                 max_x := max (max_x b) mx_x,
                 min_y := min (min_y b) mn_y,
                 max_y := max (max_y b) mx_y\<rparr>))))))"

definition Board_obj :: "cell list \<Rightarrow> heap \<Rightarrow> error + board_obj \<times> heap" where
  "Board_obj initial_cells h =
     (let (r1, h1) = new_set (set initial_cells) h;
          (r2, h2) = new_set {} h1
      in case update_boundaries_obj h2
                \<lparr>live = r1, previous = r2, state = 0,
                 min_x = 100, max_x = - 100, min_y = 100, max_y = - 100,
                 center_x = 0, center_y = 0\<rparr> of
           Inl e \<Rightarrow> Inl e
         | Inr b \<Rightarrow> Inr (b\<lparr>center_x := 0, center_y := 0\<rparr>, h2))"

text \<open>
  The loop of \<open>Generate_next_state\<close>: each round reads the object that
  \<open>self.previous\<close> refers to and may add to the object that \<open>self.live\<close> refers to.
\<close>

fun live_loop_obj :: "cell list \<Rightarrow> board_obj \<Rightarrow> heap \<Rightarrow> error + heap" where
  "live_loop_obj [] b h = Inr h"
| "live_loop_obj (cell # rest) b h =
     (case transition cell (set_at h (previous b)) of
        Inl e \<Rightarrow> Inl e
      | Inr t \<Rightarrow> live_loop_obj rest b (if t then set_add (live b) cell h else h))"

definition Generate_next_state_obj :: "board_obj \<Rightarrow> heap \<Rightarrow> error + board_obj \<times> heap" where
  "Generate_next_state_obj b h =
     (if card (set_at h (live b)) = 0 then Inr (b, h)
      else
        let b1 = b\<lparr>state := state b + 1\<rparr>;
            (r1, h1) = new_set (set_at h (live b1)) h;
            b2 = b1\<lparr>previous := r1\<rparr>;
            candidate = expansion (set_at h1 (live b2));
            (r2, h2) = new_set {} h1;
            b3 = b2\<lparr>live := r2\<rparr>
        in case live_loop_obj (iterate candidate) b3 h2 of
             Inl e \<Rightarrow> Inl e
           | Inr h3 \<Rightarrow>
               (case update_boundaries_obj h3 b3 of
                  Inl e \<Rightarrow> Inl e
                | Inr b4 \<Rightarrow> Inr (b4, h3)))"

text \<open>The board of values that a board object stands for in a store.\<close>

definition view :: "heap \<Rightarrow> board_obj \<Rightarrow> board" where
  "view h b =
     \<lparr>live = set_at h (live b), previous = set_at h (previous b), state = state b,
      min_x = min_x b, max_x = max_x b, min_y = min_y b, max_y = max_y b,
      center_x = center_x b, center_y = center_y b\<rparr>"

subsection \<open>Notions of the specification\<close>

text \<open>
  The Chebyshev distance of two cells; the 8 neighbours of a cell are the cells at
  distance 1, its 3 by 3 neighbourhood the cells at distance at most 1.
\<close>

fun chebyshev :: "cell \<Rightarrow> cell \<Rightarrow> int" where
  "chebyshev (x1, y1) (x2, y2) = max \<bar>x1 - x2\<bar> \<bar>y1 - y2\<bar>"

text \<open>The number of neighbours of \<open>c\<close> that are members of \<open>s\<close>.\<close>

definition live_neighbours :: "cell \<Rightarrow> cell set \<Rightarrow> nat" where
  "live_neighbours c s = card {d \<in> s. chebyshev c d = 1}"

text \<open>The rule of Life: birth on exactly 3 neighbours, survival on 2 or 3.\<close>

definition life_rule :: "cell \<Rightarrow> cell set \<Rightarrow> bool" where
  "life_rule c s = (live_neighbours c s = 3 \<or> (live_neighbours c s = 2 \<and> c \<in> s))"

text \<open>
  The cells that have been live at some point of a run of \<open>n\<close> steps: in the seed
  or in one of the \<open>n\<close> generations computed from it.
\<close>

definition live_at :: "cell list \<Rightarrow> nat \<Rightarrow> cell set" where
  "live_at initial_cells k =
     (case run initial_cells k of Inl e \<Rightarrow> {} | Inr b \<Rightarrow> live b)"

definition ever_live :: "cell list \<Rightarrow> nat \<Rightarrow> cell set" where
  "ever_live initial_cells n = (\<Union>k\<in>{..n}. live_at initial_cells k)"

subsection \<open>Boards used as examples\<close>

text \<open>
  The blinker and the glider of the specification, a board with no live cell, and the
  board that the constructor builds from an empty seed.
\<close>

definition blinker_board :: board where
  "blinker_board = \<lparr>live = {(- 1, 0), (0, 0), (1, 0)}, previous = {}, state = 0,
      min_x = - 1, max_x = 1, min_y = 0, max_y = 0, center_x = 0, center_y = 0\<rparr>"

definition glider_board :: board where
  "glider_board = \<lparr>live = {(0, 1), (1, 0), (- 1, - 1), (0, - 1), (1, - 1)}, previous = {},
      state = 0, min_x = - 1, max_x = 1, min_y = - 1, max_y = 1,
      center_x = 0, center_y = 0\<rparr>"

definition extinct_board :: board where
  "extinct_board = \<lparr>live = {}, previous = {(0, 0)}, state = 7,
      min_x = - 3, max_x = 4, min_y = - 5, max_y = 6, center_x = 0, center_y = 0\<rparr>"

definition sentinel_board :: board where
  "sentinel_board = \<lparr>live = {}, previous = {}, state = 0,
      min_x = 100, max_x = - 100, min_y = 100, max_y = - 100, center_x = 0, center_y = 0\<rparr>"

text \<open>
  The store before any set object exists, and the board object and store that the
  constructor builds there from the blinker.
\<close>

definition empty_heap :: heap where
  "empty_heap = \<lparr>set_at = (\<lambda>r. {}), next_ref = 0\<rparr>"

definition blinker_obj :: board_obj where
  "blinker_obj = \<lparr>live = 0, previous = 1, state = 0,
      min_x = - 1, max_x = 1, min_y = 0, max_y = 0, center_x = 0, center_y = 0\<rparr>"

definition blinker_heap :: heap where
  "blinker_heap =
     \<lparr>set_at = (\<lambda>r. {})(0 := {(- 1, 0), (0, 0), (1, 0)}), next_ref = 2\<rparr>"

text \<open>A cell moved by \<open>(dx, dy)\<close>.\<close>

definition translate :: "int \<Rightarrow> int \<Rightarrow> cell \<Rightarrow> cell" where
  "translate dx dy c = (fst c + dx, snd c + dy)"

section \<open>Properties of the cell functions\<close>

lemma range3_list: "range3 = [-1, 0, 1]"
  by code_simp

lemma range3_set: "set range3 = {-1, 0, 1}"
  by (simp add: range3_list)

lemma expand_enum:
  "expand (x, y) = {(x - 1, y - 1), (x - 1, y), (x - 1, y + 1),
                    (x, y - 1), (x, y), (x, y + 1),
                    (x + 1, y - 1), (x + 1, y), (x + 1, y + 1)}"
  unfolding expand_def range3_list by auto

lemma abs_diff_le_one: "\<bar>x - u\<bar> \<le> 1 \<longleftrightarrow> u = x - 1 \<or> u = x \<or> u = x + (1::int)"
  by arith

lemma in_expand: "d \<in> expand c \<longleftrightarrow> chebyshev c d \<le> 1"
proof (cases c, cases d)
  fix x y u v
  assume c: "c = (x, y)" and d: "d = (u, v)"
  have "(u, v) \<in> expand (x, y) \<longleftrightarrow>
          (u = x - 1 \<or> u = x \<or> u = x + 1) \<and> (v = y - 1 \<or> v = y \<or> v = y + 1)"
    unfolding expand_enum by blast
  then show ?thesis using c d by (simp add: abs_diff_le_one)
qed

lemma self_in_expand: "c \<in> expand c"
  by (cases c) (simp add: in_expand)

lemma finite_expand: "finite (expand c)"
  by (cases c) (simp add: expand_enum)

lemma card_expand: "card (expand c) = 9"
  by (cases c) (simp add: expand_enum)

lemma chebyshev_nonneg: "0 \<le> chebyshev c d"
  by (cases c, cases d) simp

lemma chebyshev_zero: "chebyshev c d = 0 \<longleftrightarrow> c = d"
  by (cases c, cases d) auto

lemma chebyshev_sym: "chebyshev c d = chebyshev d c"
  by (cases c, cases d) (simp add: abs_minus_commute)

lemma neighbours_eq: "(expand c - {c}) \<inter> s = {d \<in> s. chebyshev c d = 1}"
proof -
  have "d \<in> expand c - {c} \<longleftrightarrow> chebyshev c d = 1" for d
    using chebyshev_nonneg [of c d] chebyshev_zero [of c d]
    by (auto simp: in_expand)
  then show ?thesis by auto
qed

lemma transition_life_rule: "transition c s = Inr (life_rule c s)"
  unfolding transition_def set_remove_def life_rule_def live_neighbours_def
  by (simp add: self_in_expand neighbours_eq Let_def)

lemma expansion_loop_union:
  "expansion_loop xs acc = acc \<union> (\<Union>c\<in>set xs. expand c)"
  by (induction xs arbitrary: acc) auto

lemma iterate_set: "finite s \<Longrightarrow> set (iterate s) = s"
  unfolding iterate_def by simp

lemma expansion_Union: "finite s \<Longrightarrow> expansion s = (\<Union>c\<in>s. expand c)"
  unfolding expansion_def by (simp add: expansion_loop_union iterate_set)

lemma finite_expansion: "finite s \<Longrightarrow> finite (expansion s)"
  by (simp add: expansion_Union finite_expand)

lemma live_loop_filter:
  "live_loop xs prev lv = Inr (lv \<union> {c \<in> set xs. life_rule c prev})"
  by (induction xs arbitrary: lv) (auto simp: transition_life_rule)

lemma expansion_loop_any_order:
  "set xs = set ys \<Longrightarrow> expansion_loop xs acc = expansion_loop ys acc"
  by (simp add: expansion_loop_union)

lemma live_loop_any_order:
  "set xs = set ys \<Longrightarrow> live_loop xs prev lv = live_loop ys prev lv"
  by (simp add: live_loop_filter)

lemma life_rule_in_expansion:
  assumes "finite s" and "life_rule c s"
  shows "c \<in> expansion s"
proof -
  from assms(2) have "card {d \<in> s. chebyshev c d = 1} \<noteq> 0"
    unfolding life_rule_def live_neighbours_def by auto
  then have "{d \<in> s. chebyshev c d = 1} \<noteq> {}"
    by (metis card.empty)
  then obtain d where d: "d \<in> s" "chebyshev c d = 1" by blast
  then have "c \<in> expand d"
    by (simp add: in_expand chebyshev_sym)
  with d(1) assms(1) show ?thesis
    by (auto simp: expansion_Union)
qed


section \<open>Properties of a step and of a run\<close>

lemma card_nonzero: "card s \<noteq> 0 \<longleftrightarrow> finite s \<and> s \<noteq> {}"
  by (auto simp: card_eq_0_iff)

lemma update_boundaries_eq:
  assumes "finite (live b)"
  shows "update_boundaries b =
     Inr (b\<lparr>min_x := Min (insert (min_x b) (fst ` live b)),
            max_x := Max (insert (max_x b) (fst ` live b)),
            min_y := Min (insert (min_y b) (snd ` live b)),
            max_y := Max (insert (max_y b) (snd ` live b))\<rparr>)"
proof (cases "live b = {}")
  case True
  then show ?thesis by (simp add: update_boundaries_def)
next
  case False
  with assms have "card (live b) \<noteq> 0" by simp
  moreover have "finite (fst ` live b)" "finite (snd ` live b)"
    "fst ` live b \<noteq> {}" "snd ` live b \<noteq> {}"
    using assms False by simp_all
  ultimately show ?thesis
    by (simp add: update_boundaries_def py_min_def py_max_def)
qed

lemma next_live_eq:
  assumes "finite s"
  shows "{c \<in> set (iterate (expansion s)). life_rule c s} = {c. life_rule c s}"
  using assms life_rule_in_expansion [OF assms]
  by (auto simp: iterate_set finite_expansion)

lemma finite_life_rule: "finite s \<Longrightarrow> finite {c. life_rule c s}"
  using next_live_eq [of s] by (metis (no_types, lifting) List.finite_set finite_subset mem_Collect_eq subsetI)

lemma Generate_next_state_empty:
  "live b = {} \<Longrightarrow> Generate_next_state b = Inr b"
  by (simp add: Generate_next_state_def)

lemma Generate_next_state_nonempty:
  assumes "finite (live b)" and "live b \<noteq> {}"
  shows "Generate_next_state b =
     update_boundaries (b\<lparr>state := state b + 1, previous := live b,
                         live := {c. life_rule c (live b)}\<rparr>)"
  using assms
  by (simp add: Generate_next_state_def Let_def live_loop_filter next_live_eq)

lemma Generate_next_state_eq:
  assumes "finite (live b)" and "live b \<noteq> {}"
  shows "Generate_next_state b =
     Inr (b\<lparr>state := state b + 1, previous := live b,
            live := {c. life_rule c (live b)},
            min_x := Min (insert (min_x b) (fst ` {c. life_rule c (live b)})),
            max_x := Max (insert (max_x b) (fst ` {c. life_rule c (live b)})),
            min_y := Min (insert (min_y b) (snd ` {c. life_rule c (live b)})),
            max_y := Max (insert (max_y b) (snd ` {c. life_rule c (live b)}))\<rparr>)"
  using assms
  by (simp add: Generate_next_state_nonempty update_boundaries_eq finite_life_rule)

lemma Generate_next_state_total: "\<exists>b'. Generate_next_state b = Inr b'"
proof (cases "card (live b) = 0")
  case True
  then show ?thesis by (simp add: Generate_next_state_def)
next
  case False
  then have "finite (live b)" and "live b \<noteq> {}"
    using card_nonzero [of "live b"] by blast+
  then show ?thesis by (simp add: Generate_next_state_eq)
qed

lemma Generate_next_state_finite:
  assumes "finite (live b)" and "Generate_next_state b = Inr b'"
  shows "finite (live b')"
proof (cases "live b = {}")
  case True
  with assms show ?thesis by (simp add: Generate_next_state_empty)
next
  case False
  with assms show ?thesis
    by (auto simp: Generate_next_state_eq finite_life_rule)
qed

lemma Generate_next_state_bounds:
  assumes "finite (live b)" and "Generate_next_state b = Inr b'"
  shows "min_x b' = Min (insert (min_x b) (fst ` live b'))"
    and "max_x b' = Max (insert (max_x b) (fst ` live b'))"
    and "min_y b' = Min (insert (min_y b) (snd ` live b'))"
    and "max_y b' = Max (insert (max_y b) (snd ` live b'))"
proof -
  have "min_x b' = Min (insert (min_x b) (fst ` live b')) \<and>
        max_x b' = Max (insert (max_x b) (fst ` live b')) \<and>
        min_y b' = Min (insert (min_y b) (snd ` live b')) \<and>
        max_y b' = Max (insert (max_y b) (snd ` live b'))"
  proof (cases "live b = {}")
    case True
    with assms show ?thesis by (simp add: Generate_next_state_empty)
  next
    case False
    with assms show ?thesis
      by (auto simp: Generate_next_state_eq)
  qed
  then show "min_x b' = Min (insert (min_x b) (fst ` live b'))"
    and "max_x b' = Max (insert (max_x b) (fst ` live b'))"
    and "min_y b' = Min (insert (min_y b) (snd ` live b'))"
    and "max_y b' = Max (insert (max_y b) (snd ` live b'))"
    by simp_all
qed

lemma steps_Suc_end:
  "steps (Suc n) b =
     (case steps n b of Inl e \<Rightarrow> Inl e | Inr b' \<Rightarrow> Generate_next_state b')"
proof (induction n arbitrary: b)
  case 0
  show ?case by (simp split: sum.splits)
next
  case (Suc n)
  show ?case
  proof (cases "Generate_next_state b")
    case (Inl e)
    then show ?thesis by simp
  next
    case (Inr b1)
    have "steps (Suc (Suc n)) b = steps (Suc n) b1"
      using Inr by simp
    also have "\<dots> = (case steps n b1 of Inl e \<Rightarrow> Inl e | Inr b' \<Rightarrow> Generate_next_state b')"
      by (rule Suc.IH)
    also have "steps n b1 = steps (Suc n) b"
      using Inr by simp
    finally show ?thesis .
  qed
qed

lemma steps_add:
  "steps (n + k) b = (case steps n b of Inl e \<Rightarrow> Inl e | Inr b' \<Rightarrow> steps k b')"
  by (induction n arbitrary: b) (auto split: sum.splits)

lemma steps_total:
  "finite (live b) \<Longrightarrow> \<exists>b'. steps n b = Inr b' \<and> finite (live b')"
proof (induction n arbitrary: b)
  case 0
  then show ?case by simp
next
  case (Suc n)
  obtain b1 where b1: "Generate_next_state b = Inr b1"
    using Generate_next_state_total by blast
  with Suc.prems have "finite (live b1)"
    by (rule Generate_next_state_finite)
  from Suc.IH [OF this] b1 show ?case by simp
qed

lemma Board_eq:
  "Board initial_cells =
     Inr \<lparr>live = set initial_cells, previous = {}, state = 0,
          min_x = Min (insert 100 (fst ` set initial_cells)),
          max_x = Max (insert (- 100) (fst ` set initial_cells)),
          min_y = Min (insert 100 (snd ` set initial_cells)),
          max_y = Max (insert (- 100) (snd ` set initial_cells)),
          center_x = 0, center_y = 0\<rparr>"
  by (simp add: Board_def update_boundaries_eq)

lemma run_0: "run initial_cells 0 = Board initial_cells"
  by (simp add: run_def split: sum.splits)

lemma run_Suc:
  "run initial_cells (Suc n) =
     (case run initial_cells n of Inl e \<Rightarrow> Inl e | Inr b \<Rightarrow> Generate_next_state b)"
  unfolding run_def by (simp only: steps_Suc_end split: sum.splits) simp

lemma run_add:
  "run initial_cells (n + k) =
     (case run initial_cells n of Inl e \<Rightarrow> Inl e | Inr b \<Rightarrow> steps k b)"
  unfolding run_def by (simp add: steps_add split: sum.splits)

lemma run_total: "\<exists>b. run initial_cells n = Inr b \<and> finite (live b)"
  unfolding run_def using steps_total [of _ n] by (simp add: Board_eq)

lemma live_at_run: "run initial_cells n = Inr b \<Longrightarrow> live_at initial_cells n = live b"
  by (simp add: live_at_def)

lemma finite_live_at: "finite (live_at initial_cells n)"
  using run_total [of initial_cells n] by (auto simp: live_at_def)

lemma finite_ever_live: "finite (ever_live initial_cells n)"
  by (simp add: ever_live_def finite_live_at)

lemma ever_live_0: "ever_live initial_cells 0 = set initial_cells"
  by (simp add: ever_live_def live_at_def run_0 Board_eq)

lemma ever_live_Suc:
  "ever_live initial_cells (Suc n) = ever_live initial_cells n \<union> live_at initial_cells (Suc n)"
  by (auto simp: ever_live_def atMost_Suc)

lemma Min_insert_Min:
  fixes a :: int
  assumes "finite A" and "finite B"
  shows "Min (insert (Min (insert a A)) B) = Min (insert a (A \<union> B))"
proof (cases "B = {}")
  case True
  then show ?thesis by simp
next
  case False
  have "Min (insert a (A \<union> B)) = Min (insert a A \<union> B)" by simp
  also have "\<dots> = min (Min (insert a A)) (Min B)"
    using assms False by (intro Min_Un) simp_all
  also have "\<dots> = Min (insert (Min (insert a A)) B)"
    using assms False by simp
  finally show ?thesis by simp
qed

lemma Max_insert_Max:
  fixes a :: int
  assumes "finite A" and "finite B"
  shows "Max (insert (Max (insert a A)) B) = Max (insert a (A \<union> B))"
proof (cases "B = {}")
  case True
  then show ?thesis by simp
next
  case False
  have "Max (insert a (A \<union> B)) = Max (insert a A \<union> B)" by simp
  also have "\<dots> = max (Max (insert a A)) (Max B)"
    using assms False by (intro Max_Un) simp_all
  also have "\<dots> = Max (insert (Max (insert a A)) B)"
    using assms False by simp
  finally show ?thesis by simp
qed

lemma run_bounds:
  "\<exists>b. run initial_cells n = Inr b \<and>
     min_x b = Min (insert 100 (fst ` ever_live initial_cells n)) \<and>
     max_x b = Max (insert (- 100) (fst ` ever_live initial_cells n)) \<and>
     min_y b = Min (insert 100 (snd ` ever_live initial_cells n)) \<and>
     max_y b = Max (insert (- 100) (snd ` ever_live initial_cells n))"
proof (induction n)
  case 0
  show ?case by (simp add: run_0 ever_live_0 Board_eq)
next
  case (Suc n)
  then obtain b where b: "run initial_cells n = Inr b"
    and mnx: "min_x b = Min (insert 100 (fst ` ever_live initial_cells n))"
    and mxx: "max_x b = Max (insert (- 100) (fst ` ever_live initial_cells n))"
    and mny: "min_y b = Min (insert 100 (snd ` ever_live initial_cells n))"
    and mxy: "max_y b = Max (insert (- 100) (snd ` ever_live initial_cells n))"
    by blast
  have fin: "finite (live b)"
    using run_total [of initial_cells n] b by simp
  obtain b' where b': "Generate_next_state b = Inr b'"
    using Generate_next_state_total by blast
  have r: "run initial_cells (Suc n) = Inr b'"
    by (simp add: run_Suc b b')
  have ev: "ever_live initial_cells (Suc n) = ever_live initial_cells n \<union> live b'"
    by (simp add: ever_live_Suc live_at_run [OF r])
  have fe: "finite (fst ` ever_live initial_cells n)" "finite (snd ` ever_live initial_cells n)"
    by (simp_all add: finite_ever_live)
  have fl: "finite (fst ` live b')" "finite (snd ` live b')"
    using Generate_next_state_finite [OF fin b'] by simp_all
  have "min_x b' = Min (insert 100 (fst ` ever_live initial_cells (Suc n)))"
    unfolding Generate_next_state_bounds(1) [OF fin b'] mnx ev image_Un
    by (rule Min_insert_Min [OF fe(1) fl(1)])
  moreover have "max_x b' = Max (insert (- 100) (fst ` ever_live initial_cells (Suc n)))"
    unfolding Generate_next_state_bounds(2) [OF fin b'] mxx ev image_Un
    by (rule Max_insert_Max [OF fe(1) fl(1)])
  moreover have "min_y b' = Min (insert 100 (snd ` ever_live initial_cells (Suc n)))"
    unfolding Generate_next_state_bounds(3) [OF fin b'] mny ev image_Un
    by (rule Min_insert_Min [OF fe(2) fl(2)])
  moreover have "max_y b' = Max (insert (- 100) (snd ` ever_live initial_cells (Suc n)))"
    unfolding Generate_next_state_bounds(4) [OF fin b'] mxy ev image_Un
    by (rule Max_insert_Max [OF fe(2) fl(2)])
  ultimately show ?case using r by simp
qed

lemma Generate_next_state_live:
  assumes "finite (live b)" and "live b \<noteq> {}"
    and "live_loop (iterate (expansion (live b))) (live b) {} = Inr lv"
  shows "\<exists>b'. Generate_next_state b = Inr b' \<and> live b' = lv"
proof -
  from assms(3) have "lv = {c. life_rule c (live b)}"
    by (simp add: live_loop_filter next_live_eq [OF assms(1)])
  with assms(1,2) show ?thesis
    by (simp add: Generate_next_state_eq)
qed

lemma blinker_gen1:
  "live_loop (iterate (expansion {(- 1, 0), (0, 0), (1, 0)})) {(- 1, 0), (0, 0), (1, 0)} {}
     = Inr {(0, - 1), (0, 0), (0, 1)}"
  by code_simp

lemma blinker_gen2:
  "live_loop (iterate (expansion {(0, - 1), (0, 0), (0, 1)})) {(0, - 1), (0, 0), (0, 1)} {}
     = Inr {(- 1, 0), (0, 0), (1, 0)}"
  by code_simp

lemma glider_gen1:
  "live_loop (iterate (expansion {(0, 1), (1, 0), (- 1, - 1), (0, - 1), (1, - 1)}))
      {(0, 1), (1, 0), (- 1, - 1), (0, - 1), (1, - 1)} {}
     = Inr {(- 1, 0), (0, - 2), (0, - 1), (1, - 1), (1, 0)}"
  by code_simp

lemma glider_gen2:
  "live_loop (iterate (expansion {(- 1, 0), (0, - 2), (0, - 1), (1, - 1), (1, 0)}))
      {(- 1, 0), (0, - 2), (0, - 1), (1, - 1), (1, 0)} {}
     = Inr {(- 1, - 1), (0, - 2), (1, - 2), (1, - 1), (1, 0)}"
  by code_simp

lemma glider_gen3:
  "live_loop (iterate (expansion {(- 1, - 1), (0, - 2), (1, - 2), (1, - 1), (1, 0)}))
      {(- 1, - 1), (0, - 2), (1, - 2), (1, - 1), (1, 0)} {}
     = Inr {(0, - 2), (0, 0), (1, - 2), (1, - 1), (2, - 1)}"
  by code_simp

lemma glider_gen4:
  "live_loop (iterate (expansion {(0, - 2), (0, 0), (1, - 2), (1, - 1), (2, - 1)}))
      {(0, - 2), (0, 0), (1, - 2), (1, - 1), (2, - 1)} {}
     = Inr {(1, 0), (2, - 1), (0, - 2), (1, - 2), (2, - 2)}"
  by code_simp

lemma life_rule_empty: "\<not> life_rule c {}"
  by (simp add: life_rule_def live_neighbours_def)

lemma Generate_next_state_by_candidate:
  "Generate_next_state b =
     (case Generate_next_state_candidate b of
        None \<Rightarrow> Inr b
      | Some (b3, candidate) \<Rightarrow>
          (case live_loop (iterate candidate) (previous b3) (live b3) of
             Inl e \<Rightarrow> Inl e
           | Inr lv \<Rightarrow> update_boundaries (b3\<lparr>live := lv\<rparr>)))"
  by (simp add: Generate_next_state_def Generate_next_state_candidate_def Let_def
      split: sum.splits)

lemma Generate_next_state_candidate_eq:
  assumes "finite (live b)" and "live b \<noteq> {}"
  shows "Generate_next_state_candidate b =
     Some (b\<lparr>state := state b + 1, previous := live b, live := {}\<rparr>, expansion (live b))"
  using assms by (simp add: Generate_next_state_candidate_def Let_def)

lemma blinker_counts:
  "live_neighbours (0, 1) {(- 1, 0), (0, 0), (1, 0)} = 3"
  "live_neighbours (1, 0) {(- 1, 0), (0, 0), (1, 0)} = 1"
  by code_simp+

lemma glider_run2: "map_sum id live (run [(0, 1), (1, 0), (- 1, - 1), (0, - 1), (1, - 1)] 2)
    = Inr {(- 1, - 1), (0, - 2), (1, - 2), (1, - 1), (1, 0)}"
  by code_simp

lemma glider_translated:
  "translate 1 (- 1) ` {(0, 1), (1, 0), (- 1, - 1), (0, - 1), (1, - 1)}
     = {(1, 0), (2, - 1), (0, - 2), (1, - 2), (2, - 2)}"
  by (simp add: translate_def)


section \<open>Properties of the board object\<close>

text \<open>
  A step on the board object allocates two new set objects, the copy and the new live
  set, and what it computes is what \<open>Generate_next_state\<close> computes on the values.
\<close>

lemma update_boundaries_obj_view:
  "update_boundaries_obj h b = Inr b' \<Longrightarrow>
     update_boundaries (view h b) = Inr (view h b') \<and> live b' = live b \<and>
     previous b' = previous b \<and> state b' = state b"
  unfolding update_boundaries_obj_def update_boundaries_def view_def
  by (auto split: if_splits sum.splits)

lemma update_boundaries_obj_total:
  "finite (set_at h (live b)) \<Longrightarrow> \<exists>b'. update_boundaries_obj h b = Inr b'"
  unfolding update_boundaries_obj_def py_min_def py_max_def
  by auto

lemma set_add_simps:
  "set_at (set_add r x h) r = insert x (set_at h r)"
  "r' \<noteq> r \<Longrightarrow> set_at (set_add r x h) r' = set_at h r'"
  "next_ref (set_add r x h) = next_ref h"
  by (simp_all add: set_add_def)

lemma new_set_simps:
  "fst (new_set s h) = next_ref h"
  "set_at (snd (new_set s h)) (next_ref h) = s"
  "r \<noteq> next_ref h \<Longrightarrow> set_at (snd (new_set s h)) r = set_at h r"
  "next_ref (snd (new_set s h)) = Suc (next_ref h)"
  by (simp_all add: new_set_def)

lemma live_loop_obj_eq:
  assumes "live b \<noteq> previous b"
  shows "\<exists>h'. live_loop_obj xs b h = Inr h' \<and>
     set_at h' (live b) =
       set_at h (live b) \<union> {c \<in> set xs. life_rule c (set_at h (previous b))} \<and>
     (\<forall>r. r \<noteq> live b \<longrightarrow> set_at h' r = set_at h r) \<and>
     next_ref h' = next_ref h"
proof (induction xs arbitrary: h)
  case Nil
  show ?case by simp
next
  case (Cons c xs)
  define h1 where "h1 = (if life_rule c (set_at h (previous b)) then set_add (live b) c h else h)"
  have step: "live_loop_obj (c # xs) b h = live_loop_obj xs b h1"
    by (simp add: transition_life_rule h1_def)
  have prev: "set_at h1 (previous b) = set_at h (previous b)"
    using assms by (simp add: h1_def set_add_simps)
  have other: "\<forall>r. r \<noteq> live b \<longrightarrow> set_at h1 r = set_at h r"
    by (simp add: h1_def set_add_simps)
  have nr: "next_ref h1 = next_ref h"
    by (simp add: h1_def set_add_simps)
  have lv: "set_at h1 (live b) =
      set_at h (live b) \<union> {d \<in> {c}. life_rule d (set_at h (previous b))}"
    by (auto simp: h1_def set_add_simps)
  from Cons.IH [of h1] obtain h' where h': "live_loop_obj xs b h1 = Inr h'"
    and l': "set_at h' (live b) =
       set_at h1 (live b) \<union> {c \<in> set xs. life_rule c (set_at h1 (previous b))}"
    and o': "\<forall>r. r \<noteq> live b \<longrightarrow> set_at h' r = set_at h1 r"
    and n': "next_ref h' = next_ref h1"
    by blast
  have "set_at h' (live b) =
       set_at h (live b) \<union> {d \<in> set (c # xs). life_rule d (set_at h (previous b))}"
    unfolding l' lv prev by auto
  with step h' o' other n' nr show ?case by simp
qed

lemma Generate_next_state_obj_empty:
  "set_at h (live b) = {} \<Longrightarrow> Generate_next_state_obj b h = Inr (b, h)"
  by (simp add: Generate_next_state_obj_def)

lemma Generate_next_state_obj_step:
  assumes "finite (set_at h (live b))" and "set_at h (live b) \<noteq> {}"
  shows "\<exists>b' h'. Generate_next_state_obj b h = Inr (b', h') \<and>
     state b' = state b + 1 \<and>
     previous b' = next_ref h \<and> live b' = Suc (next_ref h) \<and>
     set_at h' (previous b') = set_at h (live b) \<and>
     set_at h' (live b') = {c. life_rule c (set_at h (live b))} \<and>
     (\<forall>r. r < next_ref h \<longrightarrow> set_at h' r = set_at h r) \<and>
     next_ref h' = Suc (Suc (next_ref h)) \<and>
     Generate_next_state (view h b) = Inr (view h' b')"
proof -
  let ?s = "set_at h (live b)"
  define h1 where "h1 = snd (new_set ?s h)"
  define h2 where "h2 = snd (new_set {} h1)"
  define b3 :: board_obj where
    "b3 = b\<lparr>state := state b + 1, previous := next_ref h, live := Suc (next_ref h)\<rparr>"
  have ns1: "new_set ?s h = (next_ref h, h1)"
    by (simp add: h1_def new_set_def)
  have ns2: "new_set {} h1 = (Suc (next_ref h), h2)"
    by (simp add: h2_def h1_def new_set_def)
  have s1: "set_at h1 (next_ref h) = ?s" "\<And>r. r \<noteq> next_ref h \<Longrightarrow> set_at h1 r = set_at h r"
    "next_ref h1 = Suc (next_ref h)"
    by (simp_all add: h1_def new_set_def)
  have s2: "set_at h2 (Suc (next_ref h)) = {}" "set_at h2 (next_ref h) = ?s"
    "\<And>r. r < next_ref h \<Longrightarrow> set_at h2 r = set_at h r"
    "next_ref h2 = Suc (Suc (next_ref h))"
    by (simp_all add: h2_def h1_def new_set_def)
  have cand: "set_at h1 (live b) = ?s"
  proof (cases "live b = next_ref h")
    case True
    then show ?thesis by (simp add: s1)
  next
    case False
    then show ?thesis by (simp add: s1)
  qed
  have ne: "live b3 \<noteq> previous b3"
    by (simp add: b3_def)
  from live_loop_obj_eq [OF ne, of "iterate (expansion ?s)" h2]
  obtain h3 where h3: "live_loop_obj (iterate (expansion ?s)) b3 h2 = Inr h3"
    and l3: "set_at h3 (live b3) =
       set_at h2 (live b3) \<union>
       {c \<in> set (iterate (expansion ?s)). life_rule c (set_at h2 (previous b3))}"
    and o3: "\<forall>r. r \<noteq> live b3 \<longrightarrow> set_at h3 r = set_at h2 r"
    and n3: "next_ref h3 = next_ref h2"
    by blast
  have lv3: "set_at h3 (Suc (next_ref h)) = {c. life_rule c ?s}"
    using l3 by (simp add: b3_def s2 next_live_eq [OF assms(1)])
  have pv3: "set_at h3 (next_ref h) = ?s"
    using o3 by (simp add: b3_def s2)
  have old3: "\<forall>r. r < next_ref h \<longrightarrow> set_at h3 r = set_at h r"
    using o3 by (simp add: b3_def s2)
  have "finite (set_at h3 (live b3))"
    using lv3 by (simp add: b3_def finite_life_rule [OF assms(1)])
  then obtain b4 where b4: "update_boundaries_obj h3 b3 = Inr b4"
    using update_boundaries_obj_total by blast
  from update_boundaries_obj_view [OF b4]
  have ub: "update_boundaries (view h3 b3) = Inr (view h3 b4)"
    and f4: "live b4 = live b3" "previous b4 = previous b3" "state b4 = state b3"
    by simp_all
  have G: "Generate_next_state_obj b h = Inr (b4, h3)"
    using assms h3 b4
    by (simp add: Generate_next_state_obj_def Let_def ns1 ns2 cand b3_def)
  have v3: "view h3 b3 = (view h b)\<lparr>state := state (view h b) + 1,
      previous := live (view h b), live := {c. life_rule c (live (view h b))}\<rparr>"
    by (simp add: view_def b3_def lv3 pv3)
  have "Generate_next_state (view h b) = update_boundaries (view h3 b3)"
    unfolding v3 using assms
    by (intro Generate_next_state_nonempty) (simp_all add: view_def)
  with ub have R: "Generate_next_state (view h b) = Inr (view h3 b4)"
    by simp
  show ?thesis
    using G R f4 lv3 pv3 old3 n3 s2(4)
    by (simp add: b3_def)
qed

lemma Board_obj_eq:
  "\<exists>b0. Board_obj initial_cells h = Inr (b0, snd (new_set {} (snd (new_set (set initial_cells) h)))) \<and>
     state b0 = 0 \<and> live b0 = next_ref h \<and> previous b0 = Suc (next_ref h) \<and>
     Board initial_cells = Inr (view (snd (new_set {} (snd (new_set (set initial_cells) h)))) b0)"
proof -
  define h2 where "h2 = snd (new_set {} (snd (new_set (set initial_cells) h)))"
  define b :: board_obj where
    "b = \<lparr>live = next_ref h, previous = Suc (next_ref h), state = 0,
          min_x = 100, max_x = - 100, min_y = 100, max_y = - 100,
          center_x = 0, center_y = 0\<rparr>"
  have s2: "set_at h2 (next_ref h) = set initial_cells" "set_at h2 (Suc (next_ref h)) = {}"
    by (simp_all add: h2_def new_set_def)
  have "finite (set_at h2 (live b))"
    by (simp add: b_def s2)
  then obtain b1 where b1: "update_boundaries_obj h2 b = Inr b1"
    using update_boundaries_obj_total by blast
  from update_boundaries_obj_view [OF b1]
  have ub: "update_boundaries (view h2 b) = Inr (view h2 b1)"
    and f1: "live b1 = live b" "previous b1 = previous b" "state b1 = state b"
    by simp_all
  have v: "view h2 b = \<lparr>live = set initial_cells, previous = {}, state = 0,
          min_x = 100, max_x = - 100, min_y = 100, max_y = - 100,
          center_x = 0, center_y = 0\<rparr>"
    by (simp add: view_def b_def s2)
  have B: "Board_obj initial_cells h = Inr (b1\<lparr>center_x := 0, center_y := 0\<rparr>, h2)"
    using b1 by (simp add: Board_obj_def new_set_def h2_def b_def)
  have V: "Board initial_cells = Inr (view h2 (b1\<lparr>center_x := 0, center_y := 0\<rparr>))"
    using ub unfolding v by (simp add: Board_def view_def)
  from B V f1 show ?thesis
    unfolding h2_def [symmetric] by (auto simp: b_def)
qed

lemma Generate_next_state_obj_blinker:
  "map_sum id (\<lambda>(b, h). (live b, previous b, state b, set_at h 0, set_at h 1, set_at h 2, set_at h 3, next_ref h)) (Generate_next_state_obj blinker_obj blinker_heap)
   = Inr (3, 2, 1, {(- 1, 0), (0, 0), (1, 0)}, {}, {(- 1, 0), (0, 0), (1, 0)}, {(0, - 1), (0, 0), (0, 1)}, 4)"
  by code_simp

section \<open>The claims of the specification\<close>

text \<open>
  Claim C1. A step on a board with a non-empty (finite) live set returns a board whose
  \<open>previous\<close> is the live set before the call, and a cell is live afterwards exactly
  when the number \<open>n\<close> of its 8 neighbours in that snapshot is 3, or is 2 and the cell
  is itself in the snapshot. The rule refers to the snapshot only, never to the live set
  being built.
\<close>

theorem step_applies_life_rule:
  assumes "finite (live b)" and "live b \<noteq> {}"
  shows "\<exists>b'. Generate_next_state b = Inr b' \<and> previous b' = live b \<and>
           (\<forall>c. c \<in> live b' \<longleftrightarrow>
                 live_neighbours c (previous b') = 3 \<or>
                 (live_neighbours c (previous b') = 2 \<and> c \<in> previous b'))"
  using assms by (simp add: Generate_next_state_eq life_rule_def)

theorem step_applies_life_rule_witness:
  "finite (live blinker_board) \<and> live blinker_board \<noteq> {} \<and>
   (\<exists>b'. Generate_next_state blinker_board = Inr b' \<and>
         previous b' = {(- 1, 0), (0, 0), (1, 0)} \<and>
         (0, 1) \<in> live b' \<and> (1, 0) \<notin> live b')"
proof -
  have f: "finite (live blinker_board)" and n: "live blinker_board \<noteq> {}"
    by (simp_all add: blinker_board_def)
  have l: "live blinker_board = {(- 1, 0), (0, 0), (1, 0)}"
    by (simp add: blinker_board_def)
  from step_applies_life_rule [OF f n] obtain b'
    where b': "Generate_next_state blinker_board = Inr b'"
      and p: "previous b' = {(- 1, 0), (0, 0), (1, 0)}"
      and r: "\<And>c. c \<in> live b' \<longleftrightarrow>
                 live_neighbours c (previous b') = 3 \<or>
                 (live_neighbours c (previous b') = 2 \<and> c \<in> previous b')"
    unfolding l by blast
  have "(0, 1) \<in> live b'" "(1, 0) \<notin> live b'"
    unfolding r p by (simp_all add: blinker_counts)
  with f n b' p show ?thesis by blast
qed

text \<open>
  Claim C2. \<open>Generate_next_state\<close> runs its loop over the local \<open>candidate\<close>, and on
  a non-empty live set \<open>candidate\<close> is \<open>expansion (live b)\<close>, which holds exactly the
  cells in the 3 by 3 neighbourhood of some live cell. The candidates suffice: every cell
  that the rule of Life makes live is in the neighbourhood of a live cell, the cells live
  after the step are exactly the candidates that pass the rule, and so each of them is in
  the neighbourhood of a cell live before.
\<close>

theorem candidate_set_sufficient:
  assumes "finite (live b)"
  shows "Generate_next_state b =
           (case Generate_next_state_candidate b of
              None \<Rightarrow> Inr b
            | Some (b3, candidate) \<Rightarrow>
                (case live_loop (iterate candidate) (previous b3) (live b3) of
                   Inl e \<Rightarrow> Inl e
                 | Inr lv \<Rightarrow> update_boundaries (b3\<lparr>live := lv\<rparr>))) \<and>
         (live b \<noteq> {} \<longrightarrow>
            (\<exists>b3 candidate. Generate_next_state_candidate b = Some (b3, candidate) \<and>
               candidate = expansion (live b) \<and>
               (\<forall>d. d \<in> candidate \<longleftrightarrow> (\<exists>c\<in>live b. chebyshev c d \<le> 1)))) \<and>
         (\<forall>c. life_rule c (live b) \<longrightarrow> (\<exists>d\<in>live b. chebyshev d c \<le> 1)) \<and>
         (\<exists>b'. Generate_next_state b = Inr b' \<and>
            (\<forall>c. c \<in> live b' \<longleftrightarrow>
               (\<exists>d\<in>live b. chebyshev d c \<le> 1) \<and> life_rule c (live b)) \<and>
            (\<forall>c. c \<in> live b' \<longrightarrow> (\<exists>d\<in>live b. chebyshev d c \<le> 1)))"
proof (intro conjI)
  have ex: "d \<in> expansion (live b) \<longleftrightarrow> (\<exists>c\<in>live b. chebyshev c d \<le> 1)" for d
    using assms by (simp add: expansion_Union in_expand)
  show "Generate_next_state b =
           (case Generate_next_state_candidate b of
              None \<Rightarrow> Inr b
            | Some (b3, candidate) \<Rightarrow>
                (case live_loop (iterate candidate) (previous b3) (live b3) of
                   Inl e \<Rightarrow> Inl e
                 | Inr lv \<Rightarrow> update_boundaries (b3\<lparr>live := lv\<rparr>)))"
    by (rule Generate_next_state_by_candidate)
  show "live b \<noteq> {} \<longrightarrow>
            (\<exists>b3 candidate. Generate_next_state_candidate b = Some (b3, candidate) \<and>
               candidate = expansion (live b) \<and>
               (\<forall>d. d \<in> candidate \<longleftrightarrow> (\<exists>c\<in>live b. chebyshev c d \<le> 1)))"
    using Generate_next_state_candidate_eq [OF assms] ex by simp
  show suff: "\<forall>c. life_rule c (live b) \<longrightarrow> (\<exists>d\<in>live b. chebyshev d c \<le> 1)"
    using life_rule_in_expansion [OF assms] ex by blast
  show "\<exists>b'. Generate_next_state b = Inr b' \<and>
            (\<forall>c. c \<in> live b' \<longleftrightarrow>
               (\<exists>d\<in>live b. chebyshev d c \<le> 1) \<and> life_rule c (live b)) \<and>
            (\<forall>c. c \<in> live b' \<longrightarrow> (\<exists>d\<in>live b. chebyshev d c \<le> 1))"
  proof (cases "live b = {}")
    case True
    then have "Generate_next_state b = Inr b"
      by (rule Generate_next_state_empty)
    then show ?thesis
      using True by (simp add: life_rule_empty)
  next
    case False
    with assms obtain b' where "Generate_next_state b = Inr b'"
      and "live b' = {c. life_rule c (live b)}"
      by (simp add: Generate_next_state_eq)
    then show ?thesis
      using suff by auto
  qed
qed

theorem candidate_set_sufficient_witness:
  "finite (live blinker_board) \<and> live blinker_board \<noteq> {} \<and>
   (\<exists>b3 candidate b'.
      Generate_next_state_candidate blinker_board = Some (b3, candidate) \<and>
      Generate_next_state blinker_board = Inr b' \<and>
      (0, 1) \<in> candidate \<and> (0, 1) \<notin> live blinker_board \<and> (0, 1) \<in> live b' \<and>
      (1, 0) \<in> candidate \<and> (1, 0) \<notin> live b' \<and>
      (3, 0) \<notin> candidate \<and> (3, 0) \<notin> live b')"
proof -
  have f: "finite (live blinker_board)" and n: "live blinker_board \<noteq> {}"
    by (simp_all add: blinker_board_def)
  have l: "live blinker_board = {(- 1, 0), (0, 0), (1, 0)}"
    by (simp add: blinker_board_def)
  from candidate_set_sufficient [OF f] n
  obtain b3 candidate b'
    where p: "Generate_next_state_candidate blinker_board = Some (b3, candidate)"
      and e: "\<And>d. d \<in> candidate \<longleftrightarrow> (\<exists>c\<in>live blinker_board. chebyshev c d \<le> 1)"
      and g: "Generate_next_state blinker_board = Inr b'"
      and c: "\<And>c. c \<in> live b' \<longleftrightarrow>
               (\<exists>d\<in>live blinker_board. chebyshev d c \<le> 1) \<and>
               life_rule c (live blinker_board)"
    by blast
  have e1: "(0, 1) \<in> candidate" and e2: "(1, 0) \<in> candidate" and e3: "(3, 0) \<notin> candidate"
    using e [of "(0, 1)"] e [of "(1, 0)"] e [of "(3, 0)"] unfolding l by simp_all
  have r1: "life_rule (0, 1) (live blinker_board)"
    and r2: "\<not> life_rule (1, 0) (live blinker_board)"
    unfolding l by (simp_all add: life_rule_def blinker_counts)
  have "(0, 1) \<in> live b'" "(1, 0) \<notin> live b'" "(3, 0) \<notin> live b'"
    using c [of "(0, 1)"] c [of "(1, 0)"] c [of "(3, 0)"] r1 r2 unfolding l by simp_all
  moreover have "(0, 1) \<notin> live blinker_board"
    unfolding l by simp
  ultimately show ?thesis
    using f n p g e1 e2 e3 by blast
qed

text \<open>
  Claim C3. On a board with no live cell, any number of steps returns the board itself:
  live set, previous, generation counter and bounds are all unchanged.
\<close>

theorem extinction_absorbing:
  assumes "live b = {}"
  shows "steps n b = Inr b"
  using assms by (induction n) (simp_all add: Generate_next_state_empty)

theorem extinction_absorbing_witness:
  "live extinct_board = {} \<and> steps 5 extinct_board = Inr extinct_board"
proof -
  have e: "live extinct_board = {}"
    by (simp add: extinct_board_def)
  from extinction_absorbing [OF e, of 5] e show ?thesis by simp
qed

text \<open>
  Claim C4. In a run from any seed, between the board after \<open>n\<close> steps and the board
  after \<open>k\<close> further steps \<open>min_x\<close> and \<open>min_y\<close> do not increase and \<open>max_x\<close> and
  \<open>max_y\<close> do not decrease, and after any number of steps (none included) every live cell
  lies inside the bounds.
\<close>

theorem bounds_monotone_contain:
  "\<exists>b1 b2. run initial_cells n = Inr b1 \<and> run initial_cells (n + k) = Inr b2 \<and>
     min_x b2 \<le> min_x b1 \<and> min_y b2 \<le> min_y b1 \<and>
     max_x b1 \<le> max_x b2 \<and> max_y b1 \<le> max_y b2 \<and>
     (\<forall>(x, y)\<in>live b1. min_x b1 \<le> x \<and> x \<le> max_x b1 \<and> min_y b1 \<le> y \<and> y \<le> max_y b1)"
proof -
  obtain b1 where b1: "run initial_cells n = Inr b1"
    and mnx1: "min_x b1 = Min (insert 100 (fst ` ever_live initial_cells n))"
    and mxx1: "max_x b1 = Max (insert (- 100) (fst ` ever_live initial_cells n))"
    and mny1: "min_y b1 = Min (insert 100 (snd ` ever_live initial_cells n))"
    and mxy1: "max_y b1 = Max (insert (- 100) (snd ` ever_live initial_cells n))"
    using run_bounds [of initial_cells n] by blast
  obtain b2 where b2: "run initial_cells (n + k) = Inr b2"
    and mnx2: "min_x b2 = Min (insert 100 (fst ` ever_live initial_cells (n + k)))"
    and mxx2: "max_x b2 = Max (insert (- 100) (fst ` ever_live initial_cells (n + k)))"
    and mny2: "min_y b2 = Min (insert 100 (snd ` ever_live initial_cells (n + k)))"
    and mxy2: "max_y b2 = Max (insert (- 100) (snd ` ever_live initial_cells (n + k)))"
    using run_bounds [of initial_cells "n + k"] by blast
  have sub: "ever_live initial_cells n \<subseteq> ever_live initial_cells (n + k)"
  proof -
    have "{..n} \<subseteq> {..n + k}" by simp
    then show ?thesis unfolding ever_live_def by (rule UN_mono) simp
  qed
  have fin: "finite (ever_live initial_cells (n + k))" "finite (ever_live initial_cells n)"
    by (rule finite_ever_live)+
  have "min_x b2 \<le> min_x b1"
    unfolding mnx1 mnx2 using sub fin by (intro Min_antimono) auto
  moreover have "min_y b2 \<le> min_y b1"
    unfolding mny1 mny2 using sub fin by (intro Min_antimono) auto
  moreover have "max_x b1 \<le> max_x b2"
    unfolding mxx1 mxx2 using sub fin by (intro Max_mono) auto
  moreover have "max_y b1 \<le> max_y b2"
    unfolding mxy1 mxy2 using sub fin by (intro Max_mono) auto
  moreover have "min_x b1 \<le> x \<and> x \<le> max_x b1 \<and> min_y b1 \<le> y \<and> y \<le> max_y b1"
    if "(x, y) \<in> live b1" for x y
  proof -
    have "(x, y) \<in> ever_live initial_cells n"
      using that live_at_run [OF b1] unfolding ever_live_def by auto
    then have "x \<in> fst ` ever_live initial_cells n" "y \<in> snd ` ever_live initial_cells n"
      by force+
    then show ?thesis
      unfolding mnx1 mxx1 mny1 mxy1 using fin(2) by simp
  qed
  ultimately show ?thesis using b1 b2 by blast
qed

theorem bounds_monotone_contain_witness:
  "\<exists>b1 b2. run [(0, 1), (1, 0), (- 1, - 1), (0, - 1), (1, - 1)] 2 = Inr b1 \<and>
     run [(0, 1), (1, 0), (- 1, - 1), (0, - 1), (1, - 1)] (2 + 2) = Inr b2 \<and>
     min_x b2 \<le> min_x b1 \<and> min_y b2 \<le> min_y b1 \<and>
     max_x b1 \<le> max_x b2 \<and> max_y b1 \<le> max_y b2 \<and>
     (1, - 2) \<in> live b1 \<and>
     min_x b1 \<le> 1 \<and> 1 \<le> max_x b1 \<and> min_y b1 \<le> - 2 \<and> - 2 \<le> max_y b1"
proof -
  from bounds_monotone_contain [of "[(0, 1), (1, 0), (- 1, - 1), (0, - 1), (1, - 1)]" 2 2]
  obtain b1 b2 where r1: "run [(0, 1), (1, 0), (- 1, - 1), (0, - 1), (1, - 1)] 2 = Inr b1"
    and r2: "run [(0, 1), (1, 0), (- 1, - 1), (0, - 1), (1, - 1)] (2 + 2) = Inr b2"
    and m: "min_x b2 \<le> min_x b1 \<and> min_y b2 \<le> min_y b1 \<and>
            max_x b1 \<le> max_x b2 \<and> max_y b1 \<le> max_y b2"
    and c: "\<forall>(x, y)\<in>live b1. min_x b1 \<le> x \<and> x \<le> max_x b1 \<and> min_y b1 \<le> y \<and> y \<le> max_y b1"
    by blast
  have "live b1 = {(- 1, - 1), (0, - 2), (1, - 2), (1, - 1), (1, 0)}"
    using glider_run2 r1 by simp
  then have i: "(1, - 2) \<in> live b1" by simp
  with c have "min_x b1 \<le> 1 \<and> 1 \<le> max_x b1 \<and> min_y b1 \<le> - 2 \<and> - 2 \<le> max_y b1"
    by blast
  with r1 r2 m i show ?thesis by blast
qed

text \<open>
  Claim C5. The bounds are meant to be the smallest box that contains every cell that has
  been live so far. The code misses this when the seed lies beyond the values the
  constructor starts from: seeded with the single cell \<open>(200, 0)\<close>, \<open>max_x\<close>,
  \<open>min_y\<close> and \<open>max_y\<close> are the coordinates of the cell, but \<open>min_x\<close> stays at the
  starting value 100, while the least and the greatest x coordinate of a cell ever live
  are both 200.
\<close>

theorem bounds_fail_beyond_sentinel:
  "run [(200, 0)] 0 =
     Inr \<lparr>live = {(200, 0)}, previous = {}, state = 0,
          min_x = 100, max_x = 200, min_y = 0, max_y = 0, center_x = 0, center_y = 0\<rparr> \<and>
   Min (fst ` ever_live [(200, 0)] 0) = 200 \<and>
   Max (fst ` ever_live [(200, 0)] 0) = 200"
  by (simp add: run_0 Board_eq ever_live_0)

text \<open>
  Claim C6. The constructor sets the generation counter to 0. A step on a board object
  whose live set is non-empty (and finite) adds exactly 1 to the counter; on return
  \<open>previous\<close> refers to a set object whose contents are the live set as it was before
  the call, and this object is not the object \<open>live\<close> refers to. Both calls compute
  on the objects what the model of the values computes.
\<close>

theorem generation_counter:
  "(\<exists>b0 h1. Board_obj initial_cells h0 = Inr (b0, h1) \<and> state b0 = 0 \<and>
       Board initial_cells = Inr (view h1 b0)) \<and>
   (finite (set_at h (live b)) \<and> set_at h (live b) \<noteq> {} \<longrightarrow>
      (\<exists>b' h'. Generate_next_state_obj b h = Inr (b', h') \<and>
         state b' = state b + 1 \<and>
         set_at h' (previous b') = set_at h (live b) \<and>
         previous b' \<noteq> live b' \<and>
         Generate_next_state (view h b) = Inr (view h' b')))"
proof (intro conjI impI)
  show "\<exists>b0 h1. Board_obj initial_cells h0 = Inr (b0, h1) \<and> state b0 = 0 \<and>
       Board initial_cells = Inr (view h1 b0)"
    using Board_obj_eq [of initial_cells h0] by blast
next
  assume "finite (set_at h (live b)) \<and> set_at h (live b) \<noteq> {}"
  then have "finite (set_at h (live b))" and "set_at h (live b) \<noteq> {}"
    by simp_all
  from Generate_next_state_obj_step [OF this]
  obtain b' h' where "Generate_next_state_obj b h = Inr (b', h')"
    and "state b' = state b + 1"
    and "previous b' = next_ref h" and "live b' = Suc (next_ref h)"
    and "set_at h' (previous b') = set_at h (live b)"
    and "Generate_next_state (view h b) = Inr (view h' b')"
    by blast
  then show "\<exists>b' h'. Generate_next_state_obj b h = Inr (b', h') \<and>
         state b' = state b + 1 \<and>
         set_at h' (previous b') = set_at h (live b) \<and>
         previous b' \<noteq> live b' \<and>
         Generate_next_state (view h b) = Inr (view h' b')"
    by auto
qed

theorem generation_counter_witness:
  "(\<exists>b0 h0. Board_obj [(- 1, 0), (0, 0), (1, 0)] empty_heap = Inr (b0, h0) \<and> state b0 = 0) \<and>
   finite (set_at blinker_heap (live blinker_obj)) \<and>
   set_at blinker_heap (live blinker_obj) \<noteq> {} \<and>
   (\<exists>b' h'. Generate_next_state_obj blinker_obj blinker_heap = Inr (b', h') \<and>
      state b' = 1 \<and>
      set_at h' (previous b') = {(- 1, 0), (0, 0), (1, 0)} \<and>
      previous b' \<noteq> live b')"
proof -
  have f: "finite (set_at blinker_heap (live blinker_obj)) \<and>
      set_at blinker_heap (live blinker_obj) \<noteq> {}"
    by (simp add: blinker_heap_def blinker_obj_def)
  have v: "state blinker_obj = 0"
    "set_at blinker_heap (live blinker_obj) = {(- 1, 0), (0, 0), (1, 0)}"
    by (simp_all add: blinker_heap_def blinker_obj_def)
  from generation_counter [of "[(- 1, 0), (0, 0), (1, 0)]" empty_heap blinker_heap blinker_obj] f
  show ?thesis unfolding v by auto
qed

text \<open>
  Claim C7. From a board whose live set is the horizontal blinker, one step gives the
  vertical blinker and a second step gives the horizontal blinker again.
\<close>

theorem blinker_period_two:
  assumes "live b = {(- 1, 0), (0, 0), (1, 0)}"
  shows "\<exists>b1 b2. Generate_next_state b = Inr b1 \<and> live b1 = {(0, - 1), (0, 0), (0, 1)} \<and>
           Generate_next_state b1 = Inr b2 \<and> live b2 = {(- 1, 0), (0, 0), (1, 0)}"
proof -
  have "finite (live b)" "live b \<noteq> {}"
    using assms by simp_all
  then obtain b1 where b1: "Generate_next_state b = Inr b1"
    and l1: "live b1 = {(0, - 1), (0, 0), (0, 1)}"
    using Generate_next_state_live [of b "{(0, - 1), (0, 0), (0, 1)}"] blinker_gen1 assms
    by auto
  have "finite (live b1)" "live b1 \<noteq> {}"
    using l1 by simp_all
  then obtain b2 where b2: "Generate_next_state b1 = Inr b2"
    and l2: "live b2 = {(- 1, 0), (0, 0), (1, 0)}"
    using Generate_next_state_live [of b1 "{(- 1, 0), (0, 0), (1, 0)}"] blinker_gen2 l1
    by auto
  from b1 l1 b2 l2 show ?thesis by blast
qed

theorem blinker_period_two_witness:
  "live blinker_board = {(- 1, 0), (0, 0), (1, 0)} \<and>
   (\<exists>b1 b2. Generate_next_state blinker_board = Inr b1 \<and>
      live b1 = {(0, - 1), (0, 0), (0, 1)} \<and>
      Generate_next_state b1 = Inr b2 \<and> live b2 = {(- 1, 0), (0, 0), (1, 0)})"
proof -
  have l: "live blinker_board = {(- 1, 0), (0, 0), (1, 0)}"
    by (simp add: blinker_board_def)
  from blinker_period_two [OF l] l show ?thesis by simp
qed

text \<open>
  Claim C8. From a board whose live set is the glider of \<open>main\<close>, 4 steps give the
  same 5 cells moved by \<open>(+1, -1)\<close>.
\<close>

theorem glider_translation:
  assumes "live b = {(0, 1), (1, 0), (- 1, - 1), (0, - 1), (1, - 1)}"
  shows "\<exists>b4. steps 4 b = Inr b4 \<and> live b4 = translate 1 (- 1) ` live b"
proof -
  have "finite (live b)" "live b \<noteq> {}"
    using assms by simp_all
  then obtain b1 where b1: "Generate_next_state b = Inr b1"
    and l1: "live b1 = {(- 1, 0), (0, - 2), (0, - 1), (1, - 1), (1, 0)}"
    using Generate_next_state_live [of b "{(- 1, 0), (0, - 2), (0, - 1), (1, - 1), (1, 0)}"]
      glider_gen1 assms by auto
  have "finite (live b1)" "live b1 \<noteq> {}"
    using l1 by simp_all
  then obtain b2 where b2: "Generate_next_state b1 = Inr b2"
    and l2: "live b2 = {(- 1, - 1), (0, - 2), (1, - 2), (1, - 1), (1, 0)}"
    using Generate_next_state_live [of b1 "{(- 1, - 1), (0, - 2), (1, - 2), (1, - 1), (1, 0)}"]
      glider_gen2 l1 by auto
  have "finite (live b2)" "live b2 \<noteq> {}"
    using l2 by simp_all
  then obtain b3 where b3: "Generate_next_state b2 = Inr b3"
    and l3: "live b3 = {(0, - 2), (0, 0), (1, - 2), (1, - 1), (2, - 1)}"
    using Generate_next_state_live [of b2 "{(0, - 2), (0, 0), (1, - 2), (1, - 1), (2, - 1)}"]
      glider_gen3 l2 by auto
  have "finite (live b3)" "live b3 \<noteq> {}"
    using l3 by simp_all
  then obtain b4 where b4: "Generate_next_state b3 = Inr b4"
    and l4: "live b4 = {(1, 0), (2, - 1), (0, - 2), (1, - 2), (2, - 2)}"
    using Generate_next_state_live [of b3 "{(1, 0), (2, - 1), (0, - 2), (1, - 2), (2, - 2)}"]
      glider_gen4 l3 by auto
  have "steps 4 b = steps (Suc (Suc (Suc (Suc 0)))) b"
    by (simp add: numeral_eq_Suc)
  also have "\<dots> = Inr b4"
    using b1 b2 b3 b4 by simp
  finally have "steps 4 b = Inr b4" .
  moreover have "live b4 = translate 1 (- 1) ` live b"
    unfolding l4 assms glider_translated ..
  ultimately show ?thesis by blast
qed

theorem glider_translation_witness:
  "live glider_board = {(0, 1), (1, 0), (- 1, - 1), (0, - 1), (1, - 1)} \<and>
   (\<exists>b4. steps 4 glider_board = Inr b4 \<and>
      live b4 = {(1, 0), (2, - 1), (0, - 2), (1, - 2), (2, - 2)})"
proof -
  have l: "live glider_board = {(0, 1), (1, 0), (- 1, - 1), (0, - 1), (1, - 1)}"
    by (simp add: glider_board_def)
  from glider_translation [OF l] show ?thesis
    unfolding l glider_translated using l by simp
qed

text \<open>
  Claim C9. For every cell and every set of cells, \<open>transition\<close> returns a truth
  value and raises nothing: \<open>expand\<close> returns the 9 cells at Chebyshev distance at most
  1, the cell itself among them, so that removing the cell succeeds.
\<close>

theorem transition_never_raises:
  "(\<exists>alive. transition c st = Inr alive) \<and>
   (\<exists>neighbours. set_remove (expand c) c = Inr neighbours) \<and>
   (\<forall>d. d \<in> expand c \<longleftrightarrow> chebyshev c d \<le> 1) \<and>
   card (expand c) = 9 \<and> c \<in> expand c"
  by (simp add: transition_life_rule set_remove_def self_in_expand in_expand card_expand)

theorem transition_never_raises_witness:
  "(\<exists>alive. transition (2, - 3) {(2, - 2), (3, - 3), (1, - 4)} = Inr alive) \<and>
   (\<exists>neighbours. set_remove (expand (2, - 3)) (2, - 3) = Inr neighbours) \<and>
   ((3, - 4) \<in> expand (2, - 3) \<longleftrightarrow> chebyshev (2, - 3) (3, - 4) \<le> 1) \<and>
   card (expand (2, - 3)) = 9 \<and> (2, - 3) \<in> expand (2, - 3)"
  using transition_never_raises [of "(2, - 3)" "{(2, - 2), (3, - 3), (1, - 4)}"]
  by blast

text \<open>
  Claim C10. The board built from an empty seed has the bounds 100, -100, 100, -100, an
  inverted box, and keeps them (with everything else) under any number of steps; from any
  seed and after any number of steps, \<open>min_x\<close> is at most 100 and \<open>max_x\<close> at least
  -100.
\<close>

theorem empty_seed_sentinel:
  "Board [] = Inr sentinel_board \<and>
   min_x sentinel_board = 100 \<and> max_x sentinel_board = - 100 \<and>
   min_y sentinel_board = 100 \<and> max_y sentinel_board = - 100 \<and>
   max_x sentinel_board < min_x sentinel_board \<and>
   max_y sentinel_board < min_y sentinel_board \<and>
   run [] n = Inr sentinel_board \<and>
   (\<exists>b. run initial_cells k = Inr b \<and> min_x b \<le> 100 \<and> - 100 \<le> max_x b)"
proof -
  have B: "Board [] = Inr sentinel_board"
    by (simp add: Board_eq sentinel_board_def)
  have "steps n sentinel_board = Inr sentinel_board"
    by (induction n) (simp_all add: Generate_next_state_empty sentinel_board_def)
  then have R: "run [] n = Inr sentinel_board"
    by (simp add: run_def B)
  obtain b where b: "run initial_cells k = Inr b"
    and "min_x b = Min (insert 100 (fst ` ever_live initial_cells k))"
    and "max_x b = Max (insert (- 100) (fst ` ever_live initial_cells k))"
    using run_bounds [of initial_cells k] by blast
  then have "min_x b \<le> 100" "- 100 \<le> max_x b"
    by (simp_all add: finite_ever_live)
  with b B R show ?thesis
    by (auto simp: sentinel_board_def)
qed

theorem empty_seed_sentinel_witness:
  "run [] 3 = Inr sentinel_board \<and>
   (\<exists>b. run [(200, 0)] 0 = Inr b \<and> min_x b \<le> 100 \<and> - 100 \<le> max_x b)"
  using empty_seed_sentinel [of 3 "[(200, 0)]" 0] by blast

end
